theory Spec2Isabelle
  imports Complex_Main "HOL-Library.Word"
begin

section \<open>Hardware lines\<close>

text \<open>
  Modelled from the spec: the line capability. The header includes mbed.h and binds every
  cached input to a \<^verbatim>\<open>DigitalIn\<close> or an \<^verbatim>\<open>AnalogIn\<close> of that library, which is not
  part of the repository. A line is addressed by a number (the reference the cached input
  holds). The world gives, for every line and every sampling instant, the raw value the line
  returns there, and keeps the trace of the hardware calls made so far; the sampling instant
  of a call is the number of calls made before it.
\<close>

datatype line = DigitalIn nat | AnalogIn nat

record 'f world =
  digital_line :: "nat \<Rightarrow> nat \<Rightarrow> int"
  analog_line :: "nat \<Rightarrow> nat \<Rightarrow> 'f"
  trace :: "line list"

text \<open>
  Modelled from the spec: \<^verbatim>\<open>DigitalIn::read()\<close>, the sample of a binary line, an integer.
\<close>

definition DigitalIn_read :: "nat \<Rightarrow> 'f world \<Rightarrow> int \<times> 'f world" where
  "DigitalIn_read l w =
     (digital_line w l (length (trace w)), w\<lparr>trace := trace w @ [DigitalIn l]\<rparr>)"

text \<open>
  Modelled from the spec: \<^verbatim>\<open>AnalogIn::read()\<close>, the sample of an analog line, a float.
\<close>

definition AnalogIn_read :: "nat \<Rightarrow> 'f world \<Rightarrow> 'f \<times> 'f world" where
  "AnalogIn_read l w =
     (analog_line w l (length (trace w)), w\<lparr>trace := trace w @ [AnalogIn l]\<rparr>)"

section \<open>InputRead, Digital and Analog\<close>

text \<open>
  \<^verbatim>\<open>InputRead<In, Data>\<close> has two members: the reference \<^verbatim>\<open>in\<close> and the cache
  \<^verbatim>\<open>data\<close>. Its constructor \<^verbatim>\<open>InputRead(In &in) : in(in) {}\<close> initialises the reference
  only, so \<^verbatim>\<open>data\<close> keeps whatever the storage of the object held: that content is the
  second argument of the constructor here.
\<close>

record 'd InputRead =
  in_ref :: nat
  data :: 'd

definition InputRead_ctor :: "nat \<Rightarrow> 'd \<Rightarrow> 'd InputRead" where
  "InputRead_ctor r prior = \<lparr>in_ref = r, data = prior\<rparr>"

definition read_cached :: "'d InputRead \<Rightarrow> 'd" where
  "read_cached x = data x"

definition operator_Data :: "'d InputRead \<Rightarrow> 'd" where
  "operator_Data x = data x"

text \<open>
  Modelled from the spec: \<^verbatim>\<open>Digital::read\<close>, which the header only declares. The spec:
  sampling invokes the line, applies the inversion of the kind, stores the result as the
  new cache value and returns it; for the binary kind an inverted read flips the sampled
  bit (0 to 1, 1 to 0).
\<close>

definition Digital_read :: "bool \<Rightarrow> int InputRead \<Rightarrow> 'f world \<Rightarrow> int \<times> int InputRead \<times> 'f world" where
  "Digital_read inverse_read d w =
     (let (raw, w') = DigitalIn_read (in_ref d) w;
          v = (if inverse_read then (if raw = 0 then 1 else 0) else raw)
      in (v, d\<lparr>data := v\<rparr>, w'))"

text \<open>
  Modelled from the spec: \<^verbatim>\<open>Analog::read\<close>, which the header only declares. The spec:
  as for the binary kind, but the inversion flag is accepted and has no effect on the
  value.
\<close>

definition Analog_read :: "bool \<Rightarrow> 'f InputRead \<Rightarrow> 'f world \<Rightarrow> 'f \<times> 'f InputRead \<times> 'f world" where
  "Analog_read inverse_read a w =
     (let (raw, w') = AnalogIn_read (in_ref a) w
      in (raw, a\<lparr>data := raw\<rparr>, w'))"

section \<open>Line kinds and values\<close>

text \<open>
  Both buses hold objects of the classes \<^verbatim>\<open>Digital\<close> and \<^verbatim>\<open>Analog\<close>; \<^verbatim>\<open>read\<close> is
  virtual, so a call dispatches on the class of the object. \<^verbatim>\<open>assoc_data_type\<close> gives
  \<^verbatim>\<open>int\<close> for Digital and \<^verbatim>\<open>float\<close> for Analog. The float type is a parameter: the
  buses store and copy floats and never compute with them.
\<close>

datatype 'f input = Digital "int InputRead" | Analog "'f InputRead"

datatype 'f val = IntV int | FloatV 'f

fun input_read_cached :: "'f input \<Rightarrow> 'f val" where
  "input_read_cached (Digital d) = IntV (read_cached d)"
| "input_read_cached (Analog a) = FloatV (read_cached a)"

fun input_read :: "bool \<Rightarrow> 'f input \<Rightarrow> 'f world \<Rightarrow> 'f val \<times> 'f input \<times> 'f world" where
  "input_read inverse_read (Digital d) w =
     (let (v, d', w') = Digital_read inverse_read d w in (IntV v, Digital d', w'))"
| "input_read inverse_read (Analog a) w =
     (let (v, a', w') = Analog_read inverse_read a w in (FloatV v, Analog a', w'))"

fun line_of :: "'f input \<Rightarrow> line" where
  "line_of (Digital d) = DigitalIn (in_ref d)"
| "line_of (Analog a) = AnalogIn (in_ref a)"

text \<open>
  How an operation can fail to return. \<open>BuildError\<close>: the call does not compile (a
  \<^verbatim>\<open>static_assert\<close> fails, or \<^verbatim>\<open>std::get\<close> is instantiated outside the tuple).
  \<open>OutOfBoundsError\<close>: \<^verbatim>\<open>throw OUT_OF_BOUNDS_ERROR\<close>, which the header has as a comment only.
  \<open>UndefinedAccess\<close>: the array \<^verbatim>\<open>list[N]\<close> is accessed past its end, which C++ leaves
  undefined.
\<close>

datatype fault = BuildError | OutOfBoundsError | UndefinedAccess

section \<open>Bus\<close>

text \<open>
  \<^verbatim>\<open>Bus<T, N>\<close> has the one member \<^verbatim>\<open>T list[N]\<close>: the bus is the list of its N cached
  inputs and N is the length. In a \<^verbatim>\<open>DBus<N>\<close> every input is a Digital, in an
  \<^verbatim>\<open>ABus<N>\<close> an Analog; the member functions are the same template and never look at
  the class. Positions are \<^verbatim>\<open>size_t\<close> values that are only compared and used as indices,
  so they are natural numbers.
\<close>

type_synonym 'f Bus = "'f input list"

text \<open>\<^verbatim>\<open>operator []\<close>: the body of the guard \<^verbatim>\<open>if (index >= N)\<close> is empty.\<close>

definition Bus_index :: "'f Bus \<Rightarrow> nat \<Rightarrow> fault + 'f val" where
  "Bus_index bus index =
     (if index < length bus then Inr (input_read_cached (bus ! index))
      else Inl UndefinedAccess)"

definition Bus_get :: "nat \<Rightarrow> 'f Bus \<Rightarrow> fault + 'f val" where
  "Bus_get I bus =
     (if \<not> I < length bus then Inl BuildError
      else Inr (input_read_cached (bus ! I)))"

text \<open>\<^verbatim>\<open>for (auto &in : list) in.read(inverse_read)\<close>.\<close>

fun read_each :: "bool \<Rightarrow> 'f input list \<Rightarrow> 'f world \<Rightarrow> 'f input list \<times> 'f world" where
  "read_each inverse_read [] w = ([], w)"
| "read_each inverse_read (x # xs) w =
     (let (v, x', w') = input_read inverse_read x w;
          (xs', w'') = read_each inverse_read xs w'
      in (x' # xs', w''))"

definition Bus_read_all :: "bool \<Rightarrow> 'f Bus \<Rightarrow> 'f world \<Rightarrow> 'f Bus \<times> 'f world" where
  "Bus_read_all inverse_read bus w = read_each inverse_read bus w"

text \<open>\<^verbatim>\<open>read<I>\<close>.\<close>

definition Bus_read :: "nat \<Rightarrow> bool \<Rightarrow> 'f Bus \<Rightarrow> 'f world \<Rightarrow> fault + 'f Bus \<times> 'f world" where
  "Bus_read I inverse_read bus w =
     (if \<not> I < length bus then Inl BuildError
      else let (v, x', w') = input_read inverse_read (bus ! I) w
           in Inr (bus[I := x'], w'))"

text \<open>
  \<^verbatim>\<open>read<I, In, Index...>\<close>: position I is read with the flag, then \<^verbatim>\<open>read<In, Index...>()\<close>
  is called with no argument, so with the default \<^verbatim>\<open>inverse_read = false\<close>. With an empty
  pack that call is \<^verbatim>\<open>read<In>\<close>.
\<close>

fun Bus_read_pack :: "nat \<Rightarrow> nat \<Rightarrow> nat list \<Rightarrow> bool \<Rightarrow> 'f Bus \<Rightarrow> 'f world \<Rightarrow> fault + 'f Bus \<times> 'f world" where
  "Bus_read_pack I In [] inverse_read bus w =
     (if \<not> I < length bus then Inl BuildError
      else let (v, x', w') = input_read inverse_read (bus ! I) w
           in Bus_read In False (bus[I := x']) w')"
| "Bus_read_pack I In (I2 # Index) inverse_read bus w =
     (if \<not> I < length bus then Inl BuildError
      else let (v, x', w') = input_read inverse_read (bus ! I) w
           in Bus_read_pack In I2 Index False (bus[I := x']) w')"

text \<open>
  \<^verbatim>\<open>read(std::initializer_list<size_t> ids, bool inverse_read)\<close>: the guard
  \<^verbatim>\<open>if (id >= N)\<close> has an empty body, and \<^verbatim>\<open>list[id]\<close> is evaluated whatever id is.
\<close>

fun Bus_read_list :: "nat list \<Rightarrow> bool \<Rightarrow> 'f Bus \<Rightarrow> 'f world \<Rightarrow> fault + 'f Bus \<times> 'f world" where
  "Bus_read_list [] inverse_read bus w = Inr (bus, w)"
| "Bus_read_list (i # ids) inverse_read bus w =
     (if i < length bus
      then let (v, x', w') = input_read inverse_read (bus ! i) w
           in Bus_read_list ids inverse_read (bus[i := x']) w'
      else Inl UndefinedAccess)"

section \<open>VBus\<close>

text \<open>
  \<^verbatim>\<open>VBus<T...>\<close> has the one member \<^verbatim>\<open>std::tuple<T...> list\<close>: the bus is the list of its
  cached inputs, each of its own class. A record returned by a read is a tuple of ints
  and floats; a field keeps its static type, and an assignment to it converts the value.
  The implicit conversion between int and float is kept symbolic (\<open>IntFromFloat\<close>,
  \<open>FloatFromInt\<close>). A default-constructed tuple value-initialises its fields.
\<close>

type_synonym 'f VBus = "'f input list"

datatype 'f cell = IntF int | FloatF 'f | IntFromFloat 'f | FloatFromInt int

type_synonym 'f data_bus = "'f cell list"

fun int_typed :: "'f cell \<Rightarrow> bool" where
  "int_typed (IntF n) = True"
| "int_typed (IntFromFloat x) = True"
| "int_typed (FloatF x) = False"
| "int_typed (FloatFromInt n) = False"

fun assign :: "'f cell \<Rightarrow> 'f val \<Rightarrow> 'f cell" where
  "assign f (IntV n) = (if int_typed f then IntF n else FloatFromInt n)"
| "assign f (FloatV x) = (if int_typed f then IntFromFloat x else FloatF x)"

fun default_cell :: "'f::zero input \<Rightarrow> 'f cell" where
  "default_cell (Digital d) = IntF 0"
| "default_cell (Analog a) = FloatF 0"

text \<open>\<^verbatim>\<open>std::get<k>(data) = v\<close>; outside the tuple \<^verbatim>\<open>std::get\<close> does not compile.\<close>

definition tuple_set :: "nat \<Rightarrow> 'f val \<Rightarrow> 'f data_bus \<Rightarrow> fault + 'f data_bus" where
  "tuple_set k v dbus =
     (if k < length dbus then Inr (dbus[k := assign (dbus ! k) v]) else Inl BuildError)"

definition VBus_get :: "nat \<Rightarrow> 'f VBus \<Rightarrow> fault + 'f val" where
  "VBus_get I bus =
     (if I < length bus then Inr (input_read_cached (bus ! I)) else Inl BuildError)"

text \<open>\<^verbatim>\<open>read<I>\<close>: \<^verbatim>\<open>return std::get<I>(list).read(inverse_read)\<close>.\<close>

definition VBus_read :: "nat \<Rightarrow> bool \<Rightarrow> 'f VBus \<Rightarrow> 'f world \<Rightarrow> fault + 'f val \<times> 'f VBus \<times> 'f world" where
  "VBus_read I inverse_read bus w =
     (if I < length bus
      then let (v, x', w') = input_read inverse_read (bus ! I) w
           in Inr (v, bus[I := x'], w')
      else Inl BuildError)"

text \<open>
  \<^verbatim>\<open>read_iter<DBus, I>\<close> stores into field 0; \<^verbatim>\<open>read_iter<DBus, I, In, Index...>\<close> stores
  into field \<^verbatim>\<open>sizeof...(Index) + 1u\<close> and goes on with \<^verbatim>\<open>In, Index...\<close>. The second
  argument is the list of the positions after I.
\<close>

fun read_iter :: "nat \<Rightarrow> nat list \<Rightarrow> 'f data_bus \<Rightarrow> bool \<Rightarrow> 'f VBus \<Rightarrow> 'f world \<Rightarrow>
    fault + 'f data_bus \<times> 'f VBus \<times> 'f world" where
  "read_iter I [] dbus inverse_read bus w =
     (case VBus_read I inverse_read bus w of
        Inl e \<Rightarrow> Inl e
      | Inr (v, bus', w') \<Rightarrow>
          (case tuple_set 0 v dbus of
             Inl e \<Rightarrow> Inl e
           | Inr dbus' \<Rightarrow> Inr (dbus', bus', w')))"
| "read_iter I (In # Index) dbus inverse_read bus w =
     (if I < length bus
      then let (read_val, x', w') = input_read inverse_read (bus ! I) w
           in (case tuple_set (length Index + 1) read_val dbus of
                 Inl e \<Rightarrow> Inl e
               | Inr dbus' \<Rightarrow> read_iter In Index dbus' inverse_read (bus[I := x']) w')
      else Inl BuildError)"

text \<open>
  \<^verbatim>\<open>read<I, In, Index...>\<close>: \<^verbatim>\<open>bound_data_bus<I, In, Index...>\<close> has one field for each
  listed position, of the value type of that position, in the order of the list.
\<close>

definition VBus_read_pack :: "nat \<Rightarrow> nat \<Rightarrow> nat list \<Rightarrow> bool \<Rightarrow> 'f::zero VBus \<Rightarrow> 'f world \<Rightarrow>
    fault + 'f data_bus \<times> 'f VBus \<times> 'f world" where
  "VBus_read_pack I In Index inverse_read bus w =
     (if list_all (\<lambda>i. i < length bus) (I # In # Index)
      then read_iter I (In # Index) (map (\<lambda>i. default_cell (bus ! i)) (I # In # Index))
             inverse_read bus w
      else Inl BuildError)"

text \<open>
  \<^verbatim>\<open>read_all_iter<I>\<close>. The template argument is a \<^verbatim>\<open>size_t\<close> (32 bits on the boards mbed
  targets) and \<^verbatim>\<open>I - 1u\<close> wraps around. The overload returning \<^verbatim>\<open>void_if_nil<I - 1u>\<close>
  is the one chosen when \<^verbatim>\<open>I - 1u == 0\<close>; it reads position 0. The overload returning
  \<^verbatim>\<open>void_if_non_nil<I - 1u>\<close> is chosen otherwise; it reads position I and goes on with
  \<^verbatim>\<open>I - 1u\<close>.
\<close>

type_synonym size_t = "32 word"

function read_all_iter :: "size_t \<Rightarrow> 'f data_bus \<Rightarrow> bool \<Rightarrow> 'f VBus \<Rightarrow> 'f world \<Rightarrow>
    fault + 'f data_bus \<times> 'f VBus \<times> 'f world" where
  "read_all_iter I dbus inverse_read bus w =
     (if I - 1 = 0
      then (case VBus_read 0 inverse_read bus w of
              Inl e \<Rightarrow> Inl e
            | Inr (read_val, bus', w') \<Rightarrow>
                (case tuple_set 0 read_val dbus of
                   Inl e \<Rightarrow> Inl e
                 | Inr dbus' \<Rightarrow> Inr (dbus', bus', w')))
      else (case VBus_read (unat I) inverse_read bus w of
              Inl e \<Rightarrow> Inl e
            | Inr (read_val, bus', w') \<Rightarrow>
                (case tuple_set (unat I) read_val dbus of
                   Inl e \<Rightarrow> Inl e
                 | Inr dbus' \<Rightarrow> read_all_iter (I - 1) dbus' inverse_read bus' w')))"
  by pat_completeness auto
termination
proof (relation "measure (\<lambda>(I, dbus, inverse_read, bus, w). unat (I - 1))")
  show "wf (measure (\<lambda>(I :: size_t, dbus :: 'f data_bus, inverse_read :: bool, bus :: 'f VBus, w :: 'f world). unat (I - 1)))"
    by simp
next
  fix I :: size_t and dbus :: "'f data_bus" and inverse_read :: bool
    and bus :: "'f VBus" and w :: "'f world"
    and dbus' :: "'f data_bus" and bus' :: "'f VBus" and w' :: "'f world"
  assume "I - 1 \<noteq> 0"
  then have "unat (I - 1) \<noteq> 0"
    by (simp add: unat_eq_0)
  then have "unat (I - 1 - 1) < unat (I - 1)"
    by (metis \<open>I - 1 \<noteq> 0\<close> diff_less unat_minus_one zero_less_one neq0_conv)
  then show "((I - 1, dbus', inverse_read, bus', w'), (I, dbus, inverse_read, bus, w))
       \<in> measure (\<lambda>(I, dbus, inverse_read, bus, w). unat (I - 1))"
    by simp
qed

text \<open>
  \<^verbatim>\<open>read_all\<close>: a default-constructed \<^verbatim>\<open>data_bus\<close>, then
  \<^verbatim>\<open>read_all_iter<std::tuple_size<decltype(list)>::value - 1u>\<close>.
\<close>

definition VBus_read_all :: "bool \<Rightarrow> 'f::zero VBus \<Rightarrow> 'f world \<Rightarrow>
    fault + 'f data_bus \<times> 'f VBus \<times> 'f world" where
  "VBus_read_all inverse_read bus w =
     read_all_iter (of_nat (length bus) - 1) (map default_cell bus) inverse_read bus w"

section \<open>Runs\<close>

text \<open>
  A run is a sequence of operations on one bus. Each operation returns what the call
  returns: nothing, a cached or sampled value, or a record.
\<close>

datatype bus_op =
    BusIndex nat
  | BusGet nat
  | BusReadAll bool
  | BusRead nat bool
  | BusReadPack nat nat "nat list" bool
  | BusReadList "nat list" bool
  | VBusGet nat
  | VBusRead nat bool
  | VBusReadPack nat nat "nat list" bool
  | VBusReadAll bool

datatype 'f out = Nothing | Value "'f val" | Record "'f data_bus"

fun exec :: "bus_op \<Rightarrow> 'f::zero input list \<Rightarrow> 'f world \<Rightarrow> fault + 'f out \<times> 'f input list \<times> 'f world" where
  "exec (BusIndex i) bus w =
     (case Bus_index bus i of Inl e \<Rightarrow> Inl e | Inr v \<Rightarrow> Inr (Value v, bus, w))"
| "exec (BusGet I) bus w =
     (case Bus_get I bus of Inl e \<Rightarrow> Inl e | Inr v \<Rightarrow> Inr (Value v, bus, w))"
| "exec (BusReadAll inverse_read) bus w =
     (let (bus', w') = Bus_read_all inverse_read bus w in Inr (Nothing, bus', w'))"
| "exec (BusRead I inverse_read) bus w =
     (case Bus_read I inverse_read bus w of
        Inl e \<Rightarrow> Inl e | Inr (bus', w') \<Rightarrow> Inr (Nothing, bus', w'))"
| "exec (BusReadPack I In Index inverse_read) bus w =
     (case Bus_read_pack I In Index inverse_read bus w of
        Inl e \<Rightarrow> Inl e | Inr (bus', w') \<Rightarrow> Inr (Nothing, bus', w'))"
| "exec (BusReadList ids inverse_read) bus w =
     (case Bus_read_list ids inverse_read bus w of
        Inl e \<Rightarrow> Inl e | Inr (bus', w') \<Rightarrow> Inr (Nothing, bus', w'))"
| "exec (VBusGet I) bus w =
     (case VBus_get I bus of Inl e \<Rightarrow> Inl e | Inr v \<Rightarrow> Inr (Value v, bus, w))"
| "exec (VBusRead I inverse_read) bus w =
     (case VBus_read I inverse_read bus w of
        Inl e \<Rightarrow> Inl e | Inr (v, bus', w') \<Rightarrow> Inr (Value v, bus', w'))"
| "exec (VBusReadPack I In Index inverse_read) bus w =
     (case VBus_read_pack I In Index inverse_read bus w of
        Inl e \<Rightarrow> Inl e | Inr (dbus, bus', w') \<Rightarrow> Inr (Record dbus, bus', w'))"
| "exec (VBusReadAll inverse_read) bus w =
     (case VBus_read_all inverse_read bus w of
        Inl e \<Rightarrow> Inl e | Inr (dbus, bus', w') \<Rightarrow> Inr (Record dbus, bus', w'))"

fun run :: "bus_op list \<Rightarrow> 'f::zero input list \<Rightarrow> 'f world \<Rightarrow>
    fault + 'f out list \<times> 'f input list \<times> 'f world" where
  "run [] bus w = Inr ([], bus, w)"
| "run (b # bs) bus w =
     (case exec b bus w of
        Inl e \<Rightarrow> Inl e
      | Inr (out, bus', w') \<Rightarrow>
          (case run bs bus' w' of
             Inl e \<Rightarrow> Inl e
           | Inr (outs, bus'', w'') \<Rightarrow> Inr (out # outs, bus'', w'')))"

text \<open>
  The raw sample a line returns at an instant, and: the hardware calls \<open>ls\<close>, made from
  instant \<open>t1\<close> on in the first world and from instant \<open>t2\<close> on in the second, return equal
  raw samples.
\<close>

fun raw_at :: "'f world \<Rightarrow> line \<Rightarrow> nat \<Rightarrow> 'f val" where
  "raw_at w (DigitalIn l) t = IntV (digital_line w l t)"
| "raw_at w (AnalogIn l) t = FloatV (analog_line w l t)"

fun equal_samples :: "line list \<Rightarrow> 'f world \<Rightarrow> nat \<Rightarrow> 'f world \<Rightarrow> nat \<Rightarrow> bool" where
  "equal_samples [] w1 t1 w2 t2 = True"
| "equal_samples (l # ls) w1 t1 w2 t2 =
     (raw_at w1 l t1 = raw_at w2 l t2 \<and> equal_samples ls w1 (Suc t1) w2 (Suc t2))"

section \<open>A test bench\<close>

text \<open>
  Three digital lines holding 1, 0 and 1 and analog lines holding 0.42, at every instant;
  a homogeneous bus of three digital inputs on lines 0, 1 and 2; a heterogeneous bus of
  kinds (binary, analog, binary) whose lines hold (1, 0.42, 0). Every cache starts with the
  content 5.
\<close>

definition bench_world :: "real world" where
  "bench_world =
     \<lparr>digital_line = (\<lambda>l t. if l = 1 then 0 else 1),
      analog_line = (\<lambda>l t. 42 / 100),
      trace = []\<rparr>"

definition bench_bus :: "real Bus" where
  "bench_bus =
     [Digital (InputRead_ctor 0 5), Digital (InputRead_ctor 1 5), Digital (InputRead_ctor 2 5)]"

definition bench_vbus :: "real VBus" where
  "bench_vbus =
     [Digital (InputRead_ctor 0 5), Analog (InputRead_ctor 0 5), Digital (InputRead_ctor 1 5)]"

text \<open>
  The same lines seen by a run that starts one instant later, after a call on another
  line; what the lines held at instant 0 differs.
\<close>

definition bench_world_later :: "real world" where
  "bench_world_later =
     \<lparr>digital_line = (\<lambda>l t. if t = 0 then 9 else if l = 1 then 0 else 1),
      analog_line = (\<lambda>l t. if t = 0 then 9 else 42 / 100),
      trace = [AnalogIn 7]\<rparr>"

section \<open>What one sampling does\<close>

lemma input_read_world:
  "snd (snd (input_read flag x w)) = w\<lparr>trace := trace w @ [line_of x]\<rparr>"
  by (cases x)
    (simp_all add: Digital_read_def Analog_read_def DigitalIn_read_def AnalogIn_read_def
      Let_def split_beta)

lemma input_read_line:
  "line_of (fst (snd (input_read flag x w))) = line_of x"
  by (cases x) (simp_all add: Digital_read_def Analog_read_def Let_def split_beta)

lemma input_read_cache:
  "input_read_cached (fst (snd (input_read flag x w))) = fst (input_read flag x w)"
  by (cases x)
    (simp_all add: Digital_read_def Analog_read_def split_beta read_cached_def Let_def)

lemma read_each_length: "length (fst (read_each flag xs w)) = length xs"
  by (induction xs arbitrary: w) (simp_all add: split_beta)

lemma read_each_world:
  "snd (read_each flag xs w) = w\<lparr>trace := trace w @ map line_of xs\<rparr>"
  by (induction xs arbitrary: w) (simp_all add: split_beta input_read_world)

lemma read_each_nth:
  "i < length xs \<Longrightarrow>
   fst (read_each flag xs w) ! i =
     fst (snd (input_read flag (xs ! i) (w\<lparr>trace := trace w @ map line_of (take i xs)\<rparr>)))"
proof (induction xs arbitrary: w i)
  case Nil
  then show ?case by simp
next
  case (Cons x xs)
  show ?case
  proof (cases i)
    case 0
    then show ?thesis by (simp add: split_beta)
  next
    case (Suc j)
    with Cons.prems have "j < length xs" by simp
    from Cons.IH [OF this] Suc show ?thesis
      by (simp add: split_beta input_read_world)
  qed
qed

section \<open>Reading a list of positions\<close>

lemma lines_update:
  "i < length bus \<Longrightarrow> line_of x' = line_of (bus ! i) \<Longrightarrow>
   map line_of (bus[i := x']) = map line_of bus"
  by (simp add: map_update list_update_same_conv)

lemma input_read_value_line:
  "line_of x = line_of y \<Longrightarrow> fst (input_read flag x w) = fst (input_read flag y w)"
  by (cases x; cases y)
    (simp_all add: Digital_read_def Analog_read_def DigitalIn_read_def AnalogIn_read_def
      Let_def split_beta)

lemma Bus_read_list_result:
  "list_all (\<lambda>i. i < length bus) ids \<Longrightarrow>
   \<exists>bus'. Bus_read_list ids flag bus w =
            Inr (bus', w\<lparr>trace := trace w @ map (\<lambda>i. line_of (bus ! i)) ids\<rparr>)
        \<and> map line_of bus' = map line_of bus
        \<and> (\<forall>p. p \<notin> set ids \<longrightarrow> bus' ! p = bus ! p)
        \<and> (\<forall>k < length ids. ids ! k \<notin> set (drop (Suc k) ids) \<longrightarrow>
              input_read_cached (bus' ! (ids ! k)) =
                fst (input_read flag (bus ! (ids ! k))
                       (w\<lparr>trace := trace w @ map (\<lambda>i. line_of (bus ! i)) (take k ids)\<rparr>)))"
proof (induction ids arbitrary: bus w)
  case Nil
  then show ?case by simp
next
  case (Cons i ids)
  define x' where "x' = fst (snd (input_read flag (bus ! i) w))"
  define w' where "w' = w\<lparr>trace := trace w @ [line_of (bus ! i)]\<rparr>"
  define bus1 where "bus1 = bus[i := x']"
  from Cons.prems have i: "i < length bus" and rest: "list_all (\<lambda>j. j < length bus) ids"
    by simp_all
  have lines: "map line_of bus1 = map line_of bus"
    using i by (simp add: bus1_def lines_update x'_def input_read_line)
  have nth_lines: "line_of (bus1 ! j) = line_of (bus ! j)" if "j < length bus" for j
    using that lines by (metis bus1_def length_list_update nth_map)
  have same_lines: "map (\<lambda>j. line_of (bus1 ! j)) js = map (\<lambda>j. line_of (bus ! j)) js"
    if "list_all (\<lambda>j. j < length bus) js" for js
    using that nth_lines by (simp add: list_all_iff)
  from rest have "list_all (\<lambda>j. j < length bus1) ids" by (simp add: bus1_def)
  from Cons.IH [OF this, of w'] obtain bus' where
    run: "Bus_read_list ids flag bus1 w' =
            Inr (bus', w'\<lparr>trace := trace w' @ map (\<lambda>j. line_of (bus1 ! j)) ids\<rparr>)"
    and keep: "map line_of bus' = map line_of bus1"
    and frame: "\<And>p. p \<notin> set ids \<Longrightarrow> bus' ! p = bus1 ! p"
    and last: "\<And>k. k < length ids \<Longrightarrow> ids ! k \<notin> set (drop (Suc k) ids) \<Longrightarrow>
        input_read_cached (bus' ! (ids ! k)) =
          fst (input_read flag (bus1 ! (ids ! k))
                 (w'\<lparr>trace := trace w' @ map (\<lambda>j. line_of (bus1 ! j)) (take k ids)\<rparr>))"
    by blast
  have step: "Bus_read_list (i # ids) flag bus w = Bus_read_list ids flag bus1 w'"
    using i by (simp add: bus1_def x'_def w'_def split_beta Let_def input_read_world)
  have res: "Bus_read_list (i # ids) flag bus w =
      Inr (bus', w\<lparr>trace := trace w @ map (\<lambda>j. line_of (bus ! j)) (i # ids)\<rparr>)"
    using step run same_lines [OF rest] by (simp add: w'_def)
  have fr: "bus' ! p = bus ! p" if "p \<notin> set (i # ids)" for p
    using that frame [of p] by (simp add: bus1_def)
  have la: "input_read_cached (bus' ! ((i # ids) ! k)) =
      fst (input_read flag (bus ! ((i # ids) ! k))
             (w\<lparr>trace := trace w @ map (\<lambda>j. line_of (bus ! j)) (take k (i # ids))\<rparr>))"
    if k: "k < length (i # ids)" and nl: "(i # ids) ! k \<notin> set (drop (Suc k) (i # ids))" for k
  proof (cases k)
    case 0
    with nl have "i \<notin> set ids" by simp
    from frame [OF this] i have "bus' ! i = x'" by (simp add: bus1_def)
    with 0 show ?thesis by (simp add: x'_def input_read_cache)
  next
    case (Suc k')
    with k nl have k': "k' < length ids" and nl': "ids ! k' \<notin> set (drop (Suc k') ids)"
      by simp_all
    from rest k' have p: "ids ! k' < length bus" by (simp add: list_all_length)
    from rest have "list_all (\<lambda>j. j < length bus) (take k' ids)"
      by (auto simp: list_all_iff dest: in_set_takeD)
    from same_lines [OF this] have w'': "w'\<lparr>trace := trace w' @ map (\<lambda>j. line_of (bus1 ! j)) (take k' ids)\<rparr> =
        w\<lparr>trace := trace w @ map (\<lambda>j. line_of (bus ! j)) (take k (i # ids))\<rparr>"
      by (simp add: w'_def Suc)
    from last [OF k' nl'] w'' input_read_value_line [OF nth_lines [OF p]] Suc show ?thesis
      by simp
  qed
  from keep lines have kl: "map line_of bus' = map line_of bus" by simp
  show ?case
    by (intro exI [of _ bus'] conjI) (fact res, fact kl, use fr in blast, use la in blast)
qed

lemma Bus_read_frame:
  "I < length bus \<Longrightarrow>
   \<exists>bus' w'. Bus_read I flag bus w = Inr (bus', w') \<and> length bus' = length bus
     \<and> (\<forall>p. p \<noteq> I \<longrightarrow> bus' ! p = bus ! p)"
  by (simp add: Bus_read_def split_beta Let_def)

lemma Bus_read_pack_frame:
  "list_all (\<lambda>i. i < length bus) (I # In # Index) \<Longrightarrow>
   \<exists>bus' w'. Bus_read_pack I In Index flag bus w = Inr (bus', w') \<and> length bus' = length bus
     \<and> (\<forall>p. p \<notin> set (I # In # Index) \<longrightarrow> bus' ! p = bus ! p)"
proof (induction Index arbitrary: I In flag bus w)
  case Nil
  define x' where "x' = fst (snd (input_read flag (bus ! I) w))"
  define w' where "w' = snd (snd (input_read flag (bus ! I) w))"
  from Nil have I: "I < length bus" and In: "In < length (bus[I := x'])" by simp_all
  from Bus_read_frame [OF In, of False w'] obtain bus' w'' where
    "Bus_read In False (bus[I := x']) w' = Inr (bus', w'')" "length bus' = length bus"
    "\<forall>p. p \<noteq> In \<longrightarrow> bus' ! p = bus[I := x'] ! p"
    by auto
  with I show ?case
    by (simp add: x'_def w'_def split_beta Let_def)
next
  case (Cons I2 Index)
  define x' where "x' = fst (snd (input_read flag (bus ! I) w))"
  define w' where "w' = snd (snd (input_read flag (bus ! I) w))"
  from Cons.prems have I: "I < length bus"
    and rest: "list_all (\<lambda>i. i < length (bus[I := x'])) (In # I2 # Index)"
    by simp_all
  from Cons.IH [OF rest, of False w'] obtain bus' w'' where
    "Bus_read_pack In I2 Index False (bus[I := x']) w' = Inr (bus', w'')"
    "length bus' = length bus"
    "\<forall>p. p \<notin> set (In # I2 # Index) \<longrightarrow> bus' ! p = bus[I := x'] ! p"
    by auto
  with I show ?case
    by (simp add: x'_def w'_def split_beta Let_def)
qed

lemma Bus_read_list_frame:
  "list_all (\<lambda>i. i < length bus) ids \<Longrightarrow>
   \<exists>bus' w'. Bus_read_list ids flag bus w = Inr (bus', w') \<and> length bus' = length bus
     \<and> (\<forall>p. p \<notin> set ids \<longrightarrow> bus' ! p = bus ! p)"
proof (induction ids arbitrary: bus w)
  case Nil
  then show ?case by simp
next
  case (Cons i ids)
  define x' where "x' = fst (snd (input_read flag (bus ! i) w))"
  define w' where "w' = snd (snd (input_read flag (bus ! i) w))"
  from Cons.prems have i: "i < length bus"
    and rest: "list_all (\<lambda>j. j < length (bus[i := x'])) ids"
    by simp_all
  from Cons.IH [OF rest, of w'] obtain bus' w'' where
    "Bus_read_list ids flag (bus[i := x']) w' = Inr (bus', w'')"
    "length bus' = length bus"
    "\<forall>p. p \<notin> set ids \<longrightarrow> bus' ! p = bus[i := x'] ! p"
    by auto
  with i show ?case
    by (simp add: x'_def w'_def split_beta Let_def)
qed

lemma read_iter_frame:
  "list_all (\<lambda>i. i < length bus) (I # rest) \<Longrightarrow> length rest < length dbus \<Longrightarrow>
   \<exists>dbus' bus' w'. read_iter I rest dbus flag bus w = Inr (dbus', bus', w')
     \<and> length bus' = length bus \<and> length dbus' = length dbus
     \<and> (\<forall>p. p \<notin> set (I # rest) \<longrightarrow> bus' ! p = bus ! p)"
proof (induction rest arbitrary: I dbus bus w)
  case Nil
  then show ?case
    by (simp add: VBus_read_def tuple_set_def split_beta Let_def)
next
  case (Cons In Index)
  define x' where "x' = fst (snd (input_read flag (bus ! I) w))"
  define w' where "w' = snd (snd (input_read flag (bus ! I) w))"
  define dbus1 where
    "dbus1 = dbus[length Index + 1 := assign (dbus ! (length Index + 1)) (fst (input_read flag (bus ! I) w))]"
  from Cons.prems have I: "I < length bus"
    and rest: "list_all (\<lambda>i. i < length (bus[I := x'])) (In # Index)"
    and len: "length Index < length dbus1" "length Index + 1 < length dbus"
    by (simp_all add: dbus1_def)
  from Cons.IH [OF rest len(1), of w'] obtain dbus' bus' w'' where
    "read_iter In Index dbus1 flag (bus[I := x']) w' = Inr (dbus', bus', w'')"
    "length bus' = length bus" "length dbus' = length dbus"
    "\<forall>p. p \<notin> set (In # Index) \<longrightarrow> bus' ! p = bus[I := x'] ! p"
    by (auto simp: dbus1_def)
  with I len(2) show ?case
    by (simp add: x'_def w'_def dbus1_def tuple_set_def split_beta Let_def)
qed

lemma VBus_read_pack_frame:
  "list_all (\<lambda>i. i < length bus) (I # In # Index) \<Longrightarrow>
   \<exists>dbus' bus' w'. VBus_read_pack I In Index flag bus w = Inr (dbus', bus', w')
     \<and> length bus' = length bus
     \<and> (\<forall>p. p \<notin> set (I # In # Index) \<longrightarrow> bus' ! p = bus ! p)"
proof -
  assume a: "list_all (\<lambda>i. i < length bus) (I # In # Index)"
  have "length (In # Index) < length (map (\<lambda>i. default_cell (bus ! i)) (I # In # Index))"
    by simp
  from read_iter_frame [OF a this, of flag w] a show ?thesis
    unfolding VBus_read_pack_def by (simp del: read_iter.simps) blast
qed

section \<open>Running an operation again in another world\<close>

text \<open>
  Every operation that returns extends the trace by the calls it made, and returns the
  same values and leaves the same bus in any world whose lines return, at those calls, the
  raw samples they returned here.
\<close>

lemma raw_at_trace: "raw_at (w\<lparr>trace := t\<rparr>) l k = raw_at w l k"
  by (cases l) simp_all

lemma equal_samples_trace:
  "equal_samples ls (w1\<lparr>trace := t\<rparr>) a w2 b = equal_samples ls w1 a w2 b"
  "equal_samples ls w1 a (w2\<lparr>trace := t\<rparr>) b = equal_samples ls w1 a w2 b"
  by (induction ls arbitrary: a b) (simp_all add: raw_at_trace)

lemma equal_samples_append:
  "equal_samples (xs @ ys) w1 a w2 b \<longleftrightarrow>
     equal_samples xs w1 a w2 b \<and> equal_samples ys w1 (a + length xs) w2 (b + length xs)"
  by (induction xs arbitrary: a b) simp_all

lemma input_read_replay:
  "raw_at w1 (line_of x) (length (trace w1)) = raw_at w2 (line_of x) (length (trace w2)) \<Longrightarrow>
   fst (input_read flag x w2) = fst (input_read flag x w1)
   \<and> fst (snd (input_read flag x w2)) = fst (snd (input_read flag x w1))"
  by (cases x)
    (simp_all add: Digital_read_def Analog_read_def DigitalIn_read_def AnalogIn_read_def
      Let_def split_beta)

lemma replay_head:
  assumes "equal_samples (line_of x # ls) w (length (trace w)) w2 (length (trace w2))"
  shows "input_read flag x w2 =
      (fst (input_read flag x w), fst (snd (input_read flag x w)),
       w2\<lparr>trace := trace w2 @ [line_of x]\<rparr>)"
    and "equal_samples ls
      (w\<lparr>trace := trace w @ [line_of x]\<rparr>)
      (length (trace (w\<lparr>trace := trace w @ [line_of x]\<rparr>)))
      (w2\<lparr>trace := trace w2 @ [line_of x]\<rparr>)
      (length (trace (w2\<lparr>trace := trace w2 @ [line_of x]\<rparr>)))"
proof -
  from assms have
    "raw_at w (line_of x) (length (trace w)) = raw_at w2 (line_of x) (length (trace w2))"
    by simp
  from input_read_replay [OF this, of flag] input_read_world [of flag x w2]
  show "input_read flag x w2 =
      (fst (input_read flag x w), fst (snd (input_read flag x w)),
       w2\<lparr>trace := trace w2 @ [line_of x]\<rparr>)"
    by (metis prod.collapse)
  from assms show "equal_samples ls
      (w\<lparr>trace := trace w @ [line_of x]\<rparr>)
      (length (trace (w\<lparr>trace := trace w @ [line_of x]\<rparr>)))
      (w2\<lparr>trace := trace w2 @ [line_of x]\<rparr>)
      (length (trace (w2\<lparr>trace := trace w2 @ [line_of x]\<rparr>)))"
    by (simp add: equal_samples_trace)
qed

lemma read_each_replay:
  "equal_samples (map line_of xs) w (length (trace w)) w2 (length (trace w2)) \<Longrightarrow>
   fst (read_each flag xs w2) = fst (read_each flag xs w)"
proof (induction xs arbitrary: w w2)
  case Nil
  then show ?case by simp
next
  case (Cons x xs)
  from Cons.prems have eq:
    "equal_samples (line_of x # map line_of xs) w (length (trace w)) w2 (length (trace w2))"
    by simp
  from Cons.IH [OF replay_head(2) [OF eq]] replay_head(1) [OF eq, of flag] show ?case
    by (simp add: split_beta Let_def input_read_world)
qed

lemma Bus_read_replay:
  "Bus_read I flag bus w = Inr (bus', w') \<Longrightarrow>
   \<exists>ls. w' = w\<lparr>trace := trace w @ ls\<rparr> \<and>
     (\<forall>w2. equal_samples ls w (length (trace w)) w2 (length (trace w2)) \<longrightarrow>
        Bus_read I flag bus w2 = Inr (bus', w2\<lparr>trace := trace w2 @ ls\<rparr>))"
proof -
  assume a: "Bus_read I flag bus w = Inr (bus', w')"
  then have I: "I < length bus" by (simp add: Bus_read_def split: if_splits)
  with a have r: "bus' = bus[I := fst (snd (input_read flag (bus ! I) w))]"
      "w' = w\<lparr>trace := trace w @ [line_of (bus ! I)]\<rparr>"
    by (auto simp: Bus_read_def split_beta Let_def input_read_world)
  have "Bus_read I flag bus w2 = Inr (bus', w2\<lparr>trace := trace w2 @ [line_of (bus ! I)]\<rparr>)"
    if "equal_samples [line_of (bus ! I)] w (length (trace w)) w2 (length (trace w2))" for w2
    using I r(1) replay_head(1) [OF that, of flag]
    by (simp add: Bus_read_def)
  with r(2) show ?thesis by blast
qed

lemma Bus_read_pack_replay:
  "Bus_read_pack I In Index flag bus w = Inr (bus', w') \<Longrightarrow>
   \<exists>ls. w' = w\<lparr>trace := trace w @ ls\<rparr> \<and>
     (\<forall>w2. equal_samples ls w (length (trace w)) w2 (length (trace w2)) \<longrightarrow>
        Bus_read_pack I In Index flag bus w2 = Inr (bus', w2\<lparr>trace := trace w2 @ ls\<rparr>))"
proof (induction Index arbitrary: I In flag bus w)
  case Nil
  define x where "x = bus ! I"
  define x' where "x' = fst (snd (input_read flag x w))"
  define wa where "wa = w\<lparr>trace := trace w @ [line_of x]\<rparr>"
  from Nil have I: "I < length bus"
    by (simp split: if_splits)
  with Nil have "Bus_read In False (bus[I := x']) wa = Inr (bus', w')"
    by (simp add: x_def x'_def wa_def split_beta Let_def input_read_world)
  from Bus_read_replay [OF this] obtain ls where
    w': "w' = wa\<lparr>trace := trace wa @ ls\<rparr>"
    and again: "\<And>w2. equal_samples ls wa (length (trace wa)) w2 (length (trace w2)) \<Longrightarrow>
        Bus_read In False (bus[I := x']) w2 = Inr (bus', w2\<lparr>trace := trace w2 @ ls\<rparr>)"
    by blast
  have "Bus_read_pack I In [] flag bus w2 =
      Inr (bus', w2\<lparr>trace := trace w2 @ line_of x # ls\<rparr>)"
    if eq: "equal_samples (line_of x # ls) w (length (trace w)) w2 (length (trace w2))" for w2
    using again [OF replay_head(2) [OF eq, folded wa_def]] replay_head(1) [OF eq, of flag] I
    by (simp add: x_def [symmetric] x'_def)
  with w' show ?case
    by (intro exI [of _ "line_of x # ls"]) (simp add: wa_def)
next
  case (Cons I2 Index)
  define x where "x = bus ! I"
  define x' where "x' = fst (snd (input_read flag x w))"
  define wa where "wa = w\<lparr>trace := trace w @ [line_of x]\<rparr>"
  from Cons.prems have I: "I < length bus"
    by (simp split: if_splits)
  with Cons.prems have "Bus_read_pack In I2 Index False (bus[I := x']) wa = Inr (bus', w')"
    by (simp add: x_def x'_def wa_def split_beta Let_def input_read_world)
  from Cons.IH [OF this] obtain ls where
    w': "w' = wa\<lparr>trace := trace wa @ ls\<rparr>"
    and again: "\<And>w2. equal_samples ls wa (length (trace wa)) w2 (length (trace w2)) \<Longrightarrow>
        Bus_read_pack In I2 Index False (bus[I := x']) w2 =
          Inr (bus', w2\<lparr>trace := trace w2 @ ls\<rparr>)"
    by blast
  have "Bus_read_pack I In (I2 # Index) flag bus w2 =
      Inr (bus', w2\<lparr>trace := trace w2 @ line_of x # ls\<rparr>)"
    if eq: "equal_samples (line_of x # ls) w (length (trace w)) w2 (length (trace w2))" for w2
    using again [OF replay_head(2) [OF eq, folded wa_def]] replay_head(1) [OF eq, of flag] I
    by (simp add: x_def [symmetric] x'_def)
  with w' show ?case
    by (intro exI [of _ "line_of x # ls"]) (simp add: wa_def)
qed

lemma Bus_read_list_replay:
  "Bus_read_list ids flag bus w = Inr (bus', w') \<Longrightarrow>
   \<exists>ls. w' = w\<lparr>trace := trace w @ ls\<rparr> \<and>
     (\<forall>w2. equal_samples ls w (length (trace w)) w2 (length (trace w2)) \<longrightarrow>
        Bus_read_list ids flag bus w2 = Inr (bus', w2\<lparr>trace := trace w2 @ ls\<rparr>))"
proof (induction ids arbitrary: bus w)
  case Nil
  then show ?case by (intro exI [of _ "[]"]) simp
next
  case (Cons i ids)
  define x where "x = bus ! i"
  define x' where "x' = fst (snd (input_read flag x w))"
  define wa where "wa = w\<lparr>trace := trace w @ [line_of x]\<rparr>"
  from Cons.prems have i: "i < length bus"
    by (simp split: if_splits)
  with Cons.prems have "Bus_read_list ids flag (bus[i := x']) wa = Inr (bus', w')"
    by (simp add: x_def x'_def wa_def split_beta Let_def input_read_world)
  from Cons.IH [OF this] obtain ls where
    w': "w' = wa\<lparr>trace := trace wa @ ls\<rparr>"
    and again: "\<And>w2. equal_samples ls wa (length (trace wa)) w2 (length (trace w2)) \<Longrightarrow>
        Bus_read_list ids flag (bus[i := x']) w2 = Inr (bus', w2\<lparr>trace := trace w2 @ ls\<rparr>)"
    by blast
  have "Bus_read_list (i # ids) flag bus w2 =
      Inr (bus', w2\<lparr>trace := trace w2 @ line_of x # ls\<rparr>)"
    if eq: "equal_samples (line_of x # ls) w (length (trace w)) w2 (length (trace w2))" for w2
    using again [OF replay_head(2) [OF eq, folded wa_def]] replay_head(1) [OF eq, of flag] i
    by (simp add: x_def [symmetric] x'_def)
  with w' show ?case
    by (intro exI [of _ "line_of x # ls"]) (simp add: wa_def)
qed

lemma VBus_read_replay:
  "VBus_read I flag bus w = Inr (v, bus', w') \<Longrightarrow>
   \<exists>ls. w' = w\<lparr>trace := trace w @ ls\<rparr> \<and>
     (\<forall>w2. equal_samples ls w (length (trace w)) w2 (length (trace w2)) \<longrightarrow>
        VBus_read I flag bus w2 = Inr (v, bus', w2\<lparr>trace := trace w2 @ ls\<rparr>))"
proof -
  assume a: "VBus_read I flag bus w = Inr (v, bus', w')"
  then have I: "I < length bus" by (simp add: VBus_read_def split: if_splits)
  with a have r: "v = fst (input_read flag (bus ! I) w)"
      "bus' = bus[I := fst (snd (input_read flag (bus ! I) w))]"
      "w' = w\<lparr>trace := trace w @ [line_of (bus ! I)]\<rparr>"
    by (auto simp: VBus_read_def split_beta Let_def input_read_world)
  have "VBus_read I flag bus w2 = Inr (v, bus', w2\<lparr>trace := trace w2 @ [line_of (bus ! I)]\<rparr>)"
    if "equal_samples [line_of (bus ! I)] w (length (trace w)) w2 (length (trace w2))" for w2
    using I r(1,2) replay_head(1) [OF that, of flag]
    by (simp add: VBus_read_def)
  with r(3) show ?thesis by blast
qed

lemma read_iter_replay:
  "read_iter I rest dbus flag bus w = Inr (dbus', bus', w') \<Longrightarrow>
   \<exists>ls. w' = w\<lparr>trace := trace w @ ls\<rparr> \<and>
     (\<forall>w2. equal_samples ls w (length (trace w)) w2 (length (trace w2)) \<longrightarrow>
        read_iter I rest dbus flag bus w2 = Inr (dbus', bus', w2\<lparr>trace := trace w2 @ ls\<rparr>))"
proof (induction rest arbitrary: I dbus bus w)
  case Nil
  then obtain v dbus1 where
    rd: "VBus_read I flag bus w = Inr (v, bus', w')" and ts: "tuple_set 0 v dbus = Inr dbus'"
    by (auto split: sum.splits)
  from VBus_read_replay [OF rd] obtain ls where
    "w' = w\<lparr>trace := trace w @ ls\<rparr>"
    "\<And>w2. equal_samples ls w (length (trace w)) w2 (length (trace w2)) \<Longrightarrow>
        VBus_read I flag bus w2 = Inr (v, bus', w2\<lparr>trace := trace w2 @ ls\<rparr>)"
    by blast
  with ts show ?case
    by (intro exI [of _ ls]) simp
next
  case (Cons In Index)
  define x where "x = bus ! I"
  define v where "v = fst (input_read flag x w)"
  define x' where "x' = fst (snd (input_read flag x w))"
  define wa where "wa = w\<lparr>trace := trace w @ [line_of x]\<rparr>"
  from Cons.prems have I: "I < length bus"
    by (simp split: if_splits)
  with Cons.prems obtain dbus1 where
    ts: "tuple_set (length Index + 1) v dbus = Inr dbus1"
    and rest: "read_iter In Index dbus1 flag (bus[I := x']) wa = Inr (dbus', bus', w')"
    by (auto simp: x_def v_def x'_def wa_def split_beta Let_def input_read_world split: sum.splits)
  from Cons.IH [OF rest] obtain ls where
    w': "w' = wa\<lparr>trace := trace wa @ ls\<rparr>"
    and again: "\<And>w2. equal_samples ls wa (length (trace wa)) w2 (length (trace w2)) \<Longrightarrow>
        read_iter In Index dbus1 flag (bus[I := x']) w2 = Inr (dbus', bus', w2\<lparr>trace := trace w2 @ ls\<rparr>)"
    by blast
  have "read_iter I (In # Index) dbus flag bus w2 =
      Inr (dbus', bus', w2\<lparr>trace := trace w2 @ line_of x # ls\<rparr>)"
    if eq: "equal_samples (line_of x # ls) w (length (trace w)) w2 (length (trace w2))" for w2
    using again [OF replay_head(2) [OF eq, folded wa_def]] replay_head(1) [OF eq, of flag] I ts
    by (simp add: x_def [symmetric] v_def x'_def)
  with w' show ?case
    by (intro exI [of _ "line_of x # ls"]) (simp add: wa_def)
qed

lemma VBus_read_pack_replay:
  "VBus_read_pack I In Index flag bus w = Inr (dbus', bus', w') \<Longrightarrow>
   \<exists>ls. w' = w\<lparr>trace := trace w @ ls\<rparr> \<and>
     (\<forall>w2. equal_samples ls w (length (trace w)) w2 (length (trace w2)) \<longrightarrow>
        VBus_read_pack I In Index flag bus w2 = Inr (dbus', bus', w2\<lparr>trace := trace w2 @ ls\<rparr>))"
  unfolding VBus_read_pack_def
  by (cases "list_all (\<lambda>i. i < length bus) (I # In # Index)")
    (simp_all only: if_True if_False read_iter_replay sum.distinct)


lemma read_all_iter_replay:
  "read_all_iter I dbus flag bus w = Inr (dbus', bus', w') \<Longrightarrow>
   \<exists>ls. w' = w\<lparr>trace := trace w @ ls\<rparr> \<and>
     (\<forall>w2. equal_samples ls w (length (trace w)) w2 (length (trace w2)) \<longrightarrow>
        read_all_iter I dbus flag bus w2 = Inr (dbus', bus', w2\<lparr>trace := trace w2 @ ls\<rparr>))"
proof (induction I dbus flag bus w rule: read_all_iter.induct)
  case (1 I dbus flag bus w)
  note [simp del] = read_all_iter.simps
  show ?case
  proof (cases "I - 1 = 0")
    case True
    with "1.prems" obtain v where
      rd: "VBus_read 0 flag bus w = Inr (v, bus', w')" and ts: "tuple_set 0 v dbus = Inr dbus'"
      by (subst (asm) read_all_iter.simps) (auto split: sum.splits)
    from VBus_read_replay [OF rd] obtain ls where
      "w' = w\<lparr>trace := trace w @ ls\<rparr>"
      "\<And>w2. equal_samples ls w (length (trace w)) w2 (length (trace w2)) \<Longrightarrow>
          VBus_read 0 flag bus w2 = Inr (v, bus', w2\<lparr>trace := trace w2 @ ls\<rparr>)"
      by blast
    moreover have "read_all_iter I dbus flag bus w2 =
        (case VBus_read 0 flag bus w2 of
           Inl e \<Rightarrow> Inl e
         | Inr (read_val, bus1, w1) \<Rightarrow>
             (case tuple_set 0 read_val dbus of
                Inl e \<Rightarrow> Inl e
              | Inr dbus1 \<Rightarrow> Inr (dbus1, bus1, w1)))" for w2
      using True by (subst read_all_iter.simps) simp
    ultimately show ?thesis
      using ts by (intro exI [of _ ls]) simp
  next
    case False
    with "1.prems" obtain v bus1 w1 dbus1 where
      rd: "VBus_read (unat I) flag bus w = Inr (v, bus1, w1)"
      and ts: "tuple_set (unat I) v dbus = Inr dbus1"
      and rest: "read_all_iter (I - 1) dbus1 flag bus1 w1 = Inr (dbus', bus', w')"
      by (subst (asm) read_all_iter.simps) (auto split: sum.splits)
    from VBus_read_replay [OF rd] obtain ls1 where
      w1: "w1 = w\<lparr>trace := trace w @ ls1\<rparr>"
      and again1: "\<And>w2. equal_samples ls1 w (length (trace w)) w2 (length (trace w2)) \<Longrightarrow>
          VBus_read (unat I) flag bus w2 = Inr (v, bus1, w2\<lparr>trace := trace w2 @ ls1\<rparr>)"
      by blast
    from "1.IH" [OF False rd refl refl ts rest] obtain ls where
      w': "w' = w1\<lparr>trace := trace w1 @ ls\<rparr>"
      and again: "\<And>w2. equal_samples ls w1 (length (trace w1)) w2 (length (trace w2)) \<Longrightarrow>
          read_all_iter (I - 1) dbus1 flag bus1 w2 = Inr (dbus', bus', w2\<lparr>trace := trace w2 @ ls\<rparr>)"
      by blast
    have "read_all_iter I dbus flag bus w2 = Inr (dbus', bus', w2\<lparr>trace := trace w2 @ ls1 @ ls\<rparr>)"
      if eq: "equal_samples (ls1 @ ls) w (length (trace w)) w2 (length (trace w2))" for w2
    proof -
      from eq have e1: "equal_samples ls1 w (length (trace w)) w2 (length (trace w2))"
        and e2: "equal_samples ls w1 (length (trace w1))
          (w2\<lparr>trace := trace w2 @ ls1\<rparr>) (length (trace (w2\<lparr>trace := trace w2 @ ls1\<rparr>)))"
        by (simp_all add: equal_samples_append equal_samples_trace w1)
      have "read_all_iter I dbus flag bus w2 =
          (case VBus_read (unat I) flag bus w2 of
             Inl e \<Rightarrow> Inl e
           | Inr (read_val, bus1, w1) \<Rightarrow>
               (case tuple_set (unat I) read_val dbus of
                  Inl e \<Rightarrow> Inl e
                | Inr dbus1 \<Rightarrow> read_all_iter (I - 1) dbus1 flag bus1 w1))"
        using False by (subst read_all_iter.simps) simp
      with again1 [OF e1] again [OF e2] ts show ?thesis
        by simp
    qed
    with w' w1 show ?thesis
      by (intro exI [of _ "ls1 @ ls"]) simp
  qed
qed

lemma exec_replay:
  "exec b bus w = Inr (out, bus', w') \<Longrightarrow>
   \<exists>ls. w' = w\<lparr>trace := trace w @ ls\<rparr> \<and>
     (\<forall>w2. equal_samples ls w (length (trace w)) w2 (length (trace w2)) \<longrightarrow>
        exec b bus w2 = Inr (out, bus', w2\<lparr>trace := trace w2 @ ls\<rparr>))"
proof (cases b)
  case (BusIndex i)
  assume "exec b bus w = Inr (out, bus', w')"
  with BusIndex show ?thesis
    by (intro exI [of _ "[]"]) (auto split: sum.splits)
next
  case (BusGet I)
  assume "exec b bus w = Inr (out, bus', w')"
  with BusGet show ?thesis
    by (intro exI [of _ "[]"]) (auto split: sum.splits)
next
  case (BusReadAll flag)
  assume "exec b bus w = Inr (out, bus', w')"
  with BusReadAll have r: "out = Nothing" "bus' = fst (read_each flag bus w)"
      "w' = w\<lparr>trace := trace w @ map line_of bus\<rparr>"
    using read_each_world [of flag bus w] by (auto simp: Bus_read_all_def)
  have "exec b bus w2 = Inr (out, bus', w2\<lparr>trace := trace w2 @ map line_of bus\<rparr>)"
    if "equal_samples (map line_of bus) w (length (trace w)) w2 (length (trace w2))" for w2
    using read_each_replay [OF that, of flag] r(1,2) BusReadAll
    by (simp add: Bus_read_all_def split_beta read_each_world)
  with r(3) show ?thesis by blast
next
  case (BusRead I flag)
  assume "exec b bus w = Inr (out, bus', w')"
  with BusRead have "out = Nothing" "Bus_read I flag bus w = Inr (bus', w')"
    by (auto split: sum.splits)
  from Bus_read_replay [OF this(2)] obtain ls where
    "w' = w\<lparr>trace := trace w @ ls\<rparr>"
    "\<And>w2. equal_samples ls w (length (trace w)) w2 (length (trace w2)) \<Longrightarrow>
        Bus_read I flag bus w2 = Inr (bus', w2\<lparr>trace := trace w2 @ ls\<rparr>)"
    by blast
  with BusRead \<open>out = _\<close> show ?thesis
    by (intro exI [of _ ls]) simp
next
  case (BusReadPack I In Index flag)
  assume "exec b bus w = Inr (out, bus', w')"
  with BusReadPack have "out = Nothing" "Bus_read_pack I In Index flag bus w = Inr (bus', w')"
    by (auto split: sum.splits)
  from Bus_read_pack_replay [OF this(2)] obtain ls where
    "w' = w\<lparr>trace := trace w @ ls\<rparr>"
    "\<And>w2. equal_samples ls w (length (trace w)) w2 (length (trace w2)) \<Longrightarrow>
        Bus_read_pack I In Index flag bus w2 = Inr (bus', w2\<lparr>trace := trace w2 @ ls\<rparr>)"
    by blast
  with BusReadPack \<open>out = _\<close> show ?thesis
    by (intro exI [of _ ls]) simp
next
  case (BusReadList ids flag)
  assume "exec b bus w = Inr (out, bus', w')"
  with BusReadList have "out = Nothing" "Bus_read_list ids flag bus w = Inr (bus', w')"
    by (auto split: sum.splits)
  from Bus_read_list_replay [OF this(2)] obtain ls where
    "w' = w\<lparr>trace := trace w @ ls\<rparr>"
    "\<And>w2. equal_samples ls w (length (trace w)) w2 (length (trace w2)) \<Longrightarrow>
        Bus_read_list ids flag bus w2 = Inr (bus', w2\<lparr>trace := trace w2 @ ls\<rparr>)"
    by blast
  with BusReadList \<open>out = _\<close> show ?thesis
    by (intro exI [of _ ls]) simp
next
  case (VBusGet I)
  assume "exec b bus w = Inr (out, bus', w')"
  with VBusGet show ?thesis
    by (intro exI [of _ "[]"]) (auto split: sum.splits)
next
  case (VBusRead I flag)
  assume "exec b bus w = Inr (out, bus', w')"
  with VBusRead obtain v where "out = Value v" "VBus_read I flag bus w = Inr (v, bus', w')"
    by (auto split: sum.splits)
  from VBus_read_replay [OF this(2)] obtain ls where
    "w' = w\<lparr>trace := trace w @ ls\<rparr>"
    "\<And>w2. equal_samples ls w (length (trace w)) w2 (length (trace w2)) \<Longrightarrow>
        VBus_read I flag bus w2 = Inr (v, bus', w2\<lparr>trace := trace w2 @ ls\<rparr>)"
    by blast
  with VBusRead \<open>out = _\<close> show ?thesis
    by (intro exI [of _ ls]) simp
next
  case (VBusReadPack I In Index flag)
  assume "exec b bus w = Inr (out, bus', w')"
  with VBusReadPack obtain d where "out = Record d"
      "VBus_read_pack I In Index flag bus w = Inr (d, bus', w')"
    by (auto split: sum.splits)
  from VBus_read_pack_replay [OF this(2)] obtain ls where
    "w' = w\<lparr>trace := trace w @ ls\<rparr>"
    "\<And>w2. equal_samples ls w (length (trace w)) w2 (length (trace w2)) \<Longrightarrow>
        VBus_read_pack I In Index flag bus w2 = Inr (d, bus', w2\<lparr>trace := trace w2 @ ls\<rparr>)"
    by blast
  with VBusReadPack \<open>out = _\<close> show ?thesis
    by (intro exI [of _ ls]) simp
next
  case (VBusReadAll flag)
  assume "exec b bus w = Inr (out, bus', w')"
  with VBusReadAll obtain d where "out = Record d"
      "VBus_read_all flag bus w = Inr (d, bus', w')"
    by (auto split: sum.splits)
  from read_all_iter_replay [OF this(2) [unfolded VBus_read_all_def]] obtain ls where
    "w' = w\<lparr>trace := trace w @ ls\<rparr>"
    "\<And>w2. equal_samples ls w (length (trace w)) w2 (length (trace w2)) \<Longrightarrow>
        VBus_read_all flag bus w2 = Inr (d, bus', w2\<lparr>trace := trace w2 @ ls\<rparr>)"
    unfolding VBus_read_all_def by blast
  with VBusReadAll \<open>out = _\<close> show ?thesis
    by (intro exI [of _ ls]) simp
qed


lemma run_replay:
  "run ops bus w = Inr (outs, bus', w') \<Longrightarrow>
   \<exists>ls. w' = w\<lparr>trace := trace w @ ls\<rparr> \<and>
     (\<forall>w2. equal_samples ls w (length (trace w)) w2 (length (trace w2)) \<longrightarrow>
        run ops bus w2 = Inr (outs, bus', w2\<lparr>trace := trace w2 @ ls\<rparr>))"
proof (induction ops arbitrary: bus w outs)
  case Nil
  then show ?case by (intro exI [of _ "[]"]) simp
next
  case (Cons b bs)
  from Cons.prems obtain out bus1 w1 outs1 where
    ex: "exec b bus w = Inr (out, bus1, w1)"
    and rest: "run bs bus1 w1 = Inr (outs1, bus', w')"
    and outs: "outs = out # outs1"
    by (auto split: sum.splits)
  from exec_replay [OF ex] obtain ls1 where
    w1: "w1 = w\<lparr>trace := trace w @ ls1\<rparr>"
    and again1: "\<And>w2. equal_samples ls1 w (length (trace w)) w2 (length (trace w2)) \<Longrightarrow>
        exec b bus w2 = Inr (out, bus1, w2\<lparr>trace := trace w2 @ ls1\<rparr>)"
    by blast
  from Cons.IH [OF rest] obtain ls where
    w': "w' = w1\<lparr>trace := trace w1 @ ls\<rparr>"
    and again: "\<And>w2. equal_samples ls w1 (length (trace w1)) w2 (length (trace w2)) \<Longrightarrow>
        run bs bus1 w2 = Inr (outs1, bus', w2\<lparr>trace := trace w2 @ ls\<rparr>)"
    by blast
  have "run (b # bs) bus w2 = Inr (outs, bus', w2\<lparr>trace := trace w2 @ ls1 @ ls\<rparr>)"
    if eq: "equal_samples (ls1 @ ls) w (length (trace w)) w2 (length (trace w2))" for w2
  proof -
    from eq have e1: "equal_samples ls1 w (length (trace w)) w2 (length (trace w2))"
      and e2: "equal_samples ls w1 (length (trace w1))
        (w2\<lparr>trace := trace w2 @ ls1\<rparr>) (length (trace (w2\<lparr>trace := trace w2 @ ls1\<rparr>)))"
      by (simp_all add: equal_samples_append equal_samples_trace w1)
    from again1 [OF e1] again [OF e2] outs show ?thesis
      by simp
  qed
  with w' w1 show ?case
    by (intro exI [of _ "ls1 @ ls"]) simp
qed

section \<open>Properties of InputRead\<close>

text \<open>
  C9: the conversion to the value type returns the same value as \<^verbatim>\<open>read_cached()\<close>; both
  are functions of the cached input alone, they return no new state and take no world.
\<close>

theorem operator_Data_is_read_cached: "operator_Data x = read_cached x"
  by (simp add: operator_Data_def read_cached_def)

text \<open>
  C5, as the code has it: \<^verbatim>\<open>read_cached()\<close> returns the value that the most recent read
  stored and returned, for the binary and for the analog kind; on an instance that was
  constructed and never sampled it returns whatever the storage of the object held, which
  the constructor does not touch.
\<close>

theorem read_cached_most_recent:
  "read_cached (fst (snd (Digital_read inverse_read d w))) = fst (Digital_read inverse_read d w)
   \<and> read_cached (fst (snd (Analog_read inverse_read a w))) = fst (Analog_read inverse_read a w)
   \<and> read_cached (InputRead_ctor r prior) = prior"
  by (simp add: Digital_read_def Analog_read_def read_cached_def InputRead_ctor_def
      split_beta Let_def)

text \<open>
  C5, as the spec has it, fails: a binary input constructed over storage that held 7 and
  never sampled returns 7 from \<^verbatim>\<open>read_cached()\<close>, not 0.
\<close>

theorem read_cached_fresh_not_zero:
  "read_cached (InputRead_ctor 0 (7 :: int)) \<noteq> 0"
  by (simp add: read_cached_def InputRead_ctor_def)

section \<open>Properties of Bus\<close>

text \<open>
  C6: \<^verbatim>\<open>read_all(inverse_read)\<close> on a bus of any width makes one hardware call for each
  position, in ascending order of the positions (the trace grows by the lines of positions
  0, 1, ..., N-1), and the cache of every position i then holds the value that its read
  returned at its turn, after the reads of positions 0..i-1; the width and the line of
  each position are unchanged.
\<close>

theorem Bus_read_all_ascending:
  "length (fst (Bus_read_all inverse_read bus w)) = length bus
   \<and> snd (Bus_read_all inverse_read bus w) = w\<lparr>trace := trace w @ map line_of bus\<rparr>
   \<and> (\<forall>i < length bus.
        input_read_cached (fst (Bus_read_all inverse_read bus w) ! i) =
          fst (input_read inverse_read (bus ! i)
                 (w\<lparr>trace := trace w @ map line_of (take i bus)\<rparr>))
        \<and> line_of (fst (Bus_read_all inverse_read bus w) ! i) = line_of (bus ! i))"
  by (simp add: Bus_read_all_def read_each_length read_each_world read_each_nth
      input_read_cache input_read_line)

theorem Bus_read_all_ascending_witness:
  "1 < length bench_bus
   \<and> fst (Bus_read_all True bench_bus bench_world) =
     [Digital \<lparr>in_ref = 0, data = 0\<rparr>, Digital \<lparr>in_ref = 1, data = 1\<rparr>,
      Digital \<lparr>in_ref = 2, data = 0\<rparr>]
   \<and> trace (snd (Bus_read_all True bench_bus bench_world)) =
       [DigitalIn 0, DigitalIn 1, DigitalIn 2]
   \<and> input_read_cached (fst (Bus_read_all True bench_bus bench_world) ! 1) = IntV 1"
  using Bus_read_all_ascending [of True bench_bus bench_world]
  by (simp add: bench_bus_def bench_world_def InputRead_ctor_def Bus_read_all_def
      Digital_read_def DigitalIn_read_def read_cached_def)

text \<open>
  C7: the runtime-list read of a list of in-range positions returns, and samples exactly the
  listed positions in the order of the list: it makes one hardware call for each entry, on
  the line of the listed position, in list order; every position that is not listed is
  left as it was; and the cache of every listed position holds the value that its read
  returned, with the flag of the call, at its last turn in the list (after the calls of
  the entries before that turn). The line of each position is unchanged.
\<close>

theorem Bus_read_list_in_order:
  "\<forall>i \<in> set ids. i < length bus \<Longrightarrow>
   \<exists>bus'. Bus_read_list ids inverse_read bus w =
            Inr (bus', w\<lparr>trace := trace w @ map (\<lambda>i. line_of (bus ! i)) ids\<rparr>)
        \<and> map line_of bus' = map line_of bus
        \<and> (\<forall>p < length bus. p \<notin> set ids \<longrightarrow> bus' ! p = bus ! p)
        \<and> (\<forall>k < length ids. ids ! k \<notin> set (drop (Suc k) ids) \<longrightarrow>
              input_read_cached (bus' ! (ids ! k)) =
                fst (input_read inverse_read (bus ! (ids ! k))
                       (w\<lparr>trace := trace w @ map (\<lambda>i. line_of (bus ! i)) (take k ids)\<rparr>)))"
proof -
  assume "\<forall>i \<in> set ids. i < length bus"
  then have "list_all (\<lambda>i. i < length bus) ids" by (simp add: list_all_iff)
  from Bus_read_list_result [OF this, of inverse_read w] show ?thesis by blast
qed

theorem Bus_read_list_in_order_witness:
  "list_all (\<lambda>i. i < length bench_bus) [2, 0, 1]
   \<and> [2, 0, 1] ! 0 \<notin> set (drop (Suc 0) [2, 0, 1 :: nat])
   \<and> Bus_read_list [2, 0, 1] True bench_bus bench_world =
       Inr ([Digital \<lparr>in_ref = 0, data = 0\<rparr>, Digital \<lparr>in_ref = 1, data = 1\<rparr>,
             Digital \<lparr>in_ref = 2, data = 0\<rparr>],
            bench_world\<lparr>trace := [DigitalIn 2, DigitalIn 0, DigitalIn 1]\<rparr>)
   \<and> fst (input_read True (bench_bus ! 2) bench_world) = IntV 0"
  using Bus_read_list_in_order [of "[2, 0, 1]" bench_bus True bench_world]
  by (simp add: bench_bus_def bench_world_def InputRead_ctor_def Digital_read_def
      DigitalIn_read_def)

text \<open>
  C3: on the three-wide binary bus whose lines hold 1, 0 and 1, \<^verbatim>\<open>read<0, 1, 2>(true)\<close>
  samples lines 0, 1 and 2 in that order and leaves the caches 0, 0 and 1: only position 0
  is inverted, positions 1 and 2 are read with the default flag.
\<close>

theorem Bus_read_pack_inverts_first_only:
  "Bus_read_pack 0 1 [2] True bench_bus bench_world =
     Inr ([Digital \<lparr>in_ref = 0, data = 0\<rparr>, Digital \<lparr>in_ref = 1, data = 0\<rparr>,
           Digital \<lparr>in_ref = 2, data = 1\<rparr>],
          bench_world\<lparr>trace := [DigitalIn 0, DigitalIn 1, DigitalIn 2]\<rparr>)"
  by (simp add: bench_bus_def bench_world_def InputRead_ctor_def Bus_read_def
      Digital_read_def DigitalIn_read_def)

text \<open>
  C4: on the three-wide bus, \<^verbatim>\<open>bus[3]\<close> and \<^verbatim>\<open>read({3}, false)\<close> raise no out-of-range
  error: both go on to the access \<^verbatim>\<open>list[3]\<close>, past the end of the array.
\<close>

theorem Bus_out_of_range_unchecked:
  "Bus_index bench_bus 3 = Inl UndefinedAccess
   \<and> Bus_index bench_bus 3 \<noteq> Inl OutOfBoundsError
   \<and> Bus_read_list [3] False bench_bus bench_world = Inl UndefinedAccess
   \<and> Bus_read_list [3] False bench_bus bench_world \<noteq> Inl OutOfBoundsError"
  by (simp add: bench_bus_def Bus_index_def)

section \<open>Properties of VBus\<close>

text \<open>
  C1: on the bus of kinds (binary, analog, binary) whose lines hold (1, 0.42, 0),
  \<^verbatim>\<open>read_all(false)\<close> samples position 2, then position 0, and never position 1: the
  record is (1, 0, 0), its field 1 still the zero of the default-constructed tuple, and the
  cache of position 1 keeps its old content.
\<close>

theorem VBus_read_all_skips_position_1:
  "VBus_read_all False bench_vbus bench_world =
     Inr ([IntF 1, FloatF 0, IntF 0],
          [Digital \<lparr>in_ref = 0, data = 1\<rparr>, Analog \<lparr>in_ref = 0, data = 5\<rparr>,
           Digital \<lparr>in_ref = 1, data = 0\<rparr>],
          bench_world\<lparr>trace := [DigitalIn 1, DigitalIn 0]\<rparr>)"
  by (simp add: VBus_read_all_def bench_vbus_def bench_world_def InputRead_ctor_def
      VBus_read_def tuple_set_def Digital_read_def DigitalIn_read_def)

text \<open>
  This is so for every bus, flag and world: whenever \<^verbatim>\<open>read_all\<close> returns, position 1
  is as it was before the call and field 1 of the record is the zero of its type.
\<close>

lemma read_all_iter_keeps_position_1:
  "read_all_iter I dbus flag bus w = Inr (dbus', bus', w') \<Longrightarrow>
   bus' ! 1 = bus ! 1 \<and> dbus' ! 1 = dbus ! 1"
proof (induction I dbus flag bus w rule: read_all_iter.induct)
  case (1 I dbus flag bus w)
  note [simp del] = read_all_iter.simps
  show ?case
  proof (cases "I - 1 = 0")
    case True
    with "1.prems" show ?thesis
      by (subst (asm) read_all_iter.simps)
        (auto simp: VBus_read_def tuple_set_def split_beta Let_def split: sum.splits if_splits)
  next
    case False
    then have "I \<noteq> 1" by simp
    then have ne: "unat I \<noteq> 1"
      by (simp add: word_unat_eq_iff)
    from False "1.prems" obtain v bus1 w1 dbus1 where
      rd: "VBus_read (unat I) flag bus w = Inr (v, bus1, w1)"
      and ts: "tuple_set (unat I) v dbus = Inr dbus1"
      and rest: "read_all_iter (I - 1) dbus1 flag bus1 w1 = Inr (dbus', bus', w')"
      by (subst (asm) read_all_iter.simps) (auto split: sum.splits)
    from rd ne have "bus1 ! 1 = bus ! 1"
      by (auto simp: VBus_read_def split_beta Let_def split: if_splits)
    moreover from ts ne have "dbus1 ! 1 = dbus ! 1"
      by (auto simp: tuple_set_def split: if_splits)
    ultimately show ?thesis
      using "1.IH" [OF False rd refl refl ts rest] by simp
  qed
qed

lemma VBus_read_all_keeps_position_1:
  "VBus_read_all flag bus w = Inr (dbus, bus', w') \<Longrightarrow>
   bus' ! 1 = bus ! 1 \<and> dbus ! 1 = map default_cell bus ! 1"
  unfolding VBus_read_all_def by (rule read_all_iter_keeps_position_1)

text \<open>
  C2: on the same bus, \<^verbatim>\<open>read<0, 2>(false)\<close> returns the record (0, 1): field 0 holds the
  value sampled from position 2, the last position listed, and field 1 the value sampled
  from position 0, the first one.
\<close>

theorem VBus_read_pack_reversed:
  "VBus_read_pack 0 2 [] False bench_vbus bench_world =
     Inr ([IntF 0, IntF 1],
          [Digital \<lparr>in_ref = 0, data = 1\<rparr>, Analog \<lparr>in_ref = 0, data = 5\<rparr>,
           Digital \<lparr>in_ref = 1, data = 0\<rparr>],
          bench_world\<lparr>trace := [DigitalIn 0, DigitalIn 1]\<rparr>)"
  by (simp add: VBus_read_pack_def bench_vbus_def bench_world_def InputRead_ctor_def
      VBus_read_def tuple_set_def Digital_read_def DigitalIn_read_def)

section \<open>Selective reads\<close>

text \<open>
  C8: a selective read whose listed positions are all in range returns, keeps the width
  of the bus, and leaves every position that is not listed as it was, its cache included.
  This holds for the compile-time list of the homogeneous bus, for its runtime list, and
  for the compile-time list of the heterogeneous bus.
\<close>

theorem selective_read_frame:
  "(list_all (\<lambda>i. i < length bus) (I # In # Index) \<longrightarrow>
      (\<exists>bus' w'. Bus_read_pack I In Index inverse_read bus w = Inr (bus', w')
         \<and> length bus' = length bus
         \<and> (\<forall>p < length bus. p \<notin> set (I # In # Index) \<longrightarrow> bus' ! p = bus ! p)))
   \<and> (list_all (\<lambda>i. i < length bus) ids \<longrightarrow>
      (\<exists>bus' w'. Bus_read_list ids inverse_read bus w = Inr (bus', w')
         \<and> length bus' = length bus
         \<and> (\<forall>p < length bus. p \<notin> set ids \<longrightarrow> bus' ! p = bus ! p)))
   \<and> (list_all (\<lambda>i. i < length vbus) (I # In # Index) \<longrightarrow>
      (\<exists>dbus vbus' w'. VBus_read_pack I In Index inverse_read vbus w = Inr (dbus, vbus', w')
         \<and> length vbus' = length vbus
         \<and> (\<forall>p < length vbus. p \<notin> set (I # In # Index) \<longrightarrow> vbus' ! p = vbus ! p)))"
proof (intro conjI impI)
  assume "list_all (\<lambda>i. i < length bus) (I # In # Index)"
  from Bus_read_pack_frame [OF this, of inverse_read w]
  show "\<exists>bus' w'. Bus_read_pack I In Index inverse_read bus w = Inr (bus', w')
         \<and> length bus' = length bus
         \<and> (\<forall>p < length bus. p \<notin> set (I # In # Index) \<longrightarrow> bus' ! p = bus ! p)"
    by blast
next
  assume "list_all (\<lambda>i. i < length bus) ids"
  from Bus_read_list_frame [OF this, of inverse_read w]
  show "\<exists>bus' w'. Bus_read_list ids inverse_read bus w = Inr (bus', w')
         \<and> length bus' = length bus
         \<and> (\<forall>p < length bus. p \<notin> set ids \<longrightarrow> bus' ! p = bus ! p)"
    by blast
next
  assume "list_all (\<lambda>i. i < length vbus) (I # In # Index)"
  from VBus_read_pack_frame [OF this, of inverse_read w]
  show "\<exists>dbus vbus' w'. VBus_read_pack I In Index inverse_read vbus w = Inr (dbus, vbus', w')
         \<and> length vbus' = length vbus
         \<and> (\<forall>p < length vbus. p \<notin> set (I # In # Index) \<longrightarrow> vbus' ! p = vbus ! p)"
    by blast
qed

theorem selective_read_frame_witness:
  "list_all (\<lambda>i. i < length bench_bus) [0, 2]
   \<and> list_all (\<lambda>i. i < length bench_vbus) [0, 2]
   \<and> (\<exists>bus' w'. Bus_read_pack 0 2 [] True bench_bus bench_world = Inr (bus', w')
         \<and> bus' ! 1 = bench_bus ! 1)
   \<and> (\<exists>bus' w'. Bus_read_list [0, 2] True bench_bus bench_world = Inr (bus', w')
         \<and> bus' ! 1 = bench_bus ! 1)
   \<and> (\<exists>dbus vbus' w'. VBus_read_pack 0 2 [] True bench_vbus bench_world = Inr (dbus, vbus', w')
         \<and> vbus' ! 1 = bench_vbus ! 1)"
  using selective_read_frame [of bench_bus 0 2 "[]" True bench_world "[0, 2]" bench_vbus]
  by (simp add: bench_bus_def bench_vbus_def bench_world_def InputRead_ctor_def Bus_read_def
      VBus_read_pack_def VBus_read_def tuple_set_def Digital_read_def DigitalIn_read_def)

section \<open>Determinism\<close>

text \<open>
  C10, as the code has it: two runs that start from the same bus (the same lines and the
  same cache contents) and execute the same sequence of operations, the first of which
  returns, and in which the lines return equal raw samples at corresponding calls (the
  k-th call of the first run and the k-th call of the second), return the same values and
  records and leave the same bus, so the same cached values. The two worlds may differ
  everywhere else, and the runs may start at different instants.
\<close>

theorem run_deterministic:
  "run ops bus w1 = Inr (outs, bus', w1') \<Longrightarrow>
   equal_samples (drop (length (trace w1)) (trace w1')) w1 (length (trace w1))
     w2 (length (trace w2)) \<Longrightarrow>
   \<exists>w2'. run ops bus w2 = Inr (outs, bus', w2')"
proof -
  assume r: "run ops bus w1 = Inr (outs, bus', w1')"
    and eq: "equal_samples (drop (length (trace w1)) (trace w1')) w1 (length (trace w1))
      w2 (length (trace w2))"
  from run_replay [OF r] obtain ls where
    "w1' = w1\<lparr>trace := trace w1 @ ls\<rparr>"
    "\<And>w2. equal_samples ls w1 (length (trace w1)) w2 (length (trace w2)) \<Longrightarrow>
        run ops bus w2 = Inr (outs, bus', w2\<lparr>trace := trace w2 @ ls\<rparr>)"
    by blast
  with eq show ?thesis by simp
qed

theorem run_deterministic_witness:
  "run [BusReadList [2, 0] True, BusIndex 2, BusReadAll False, BusGet 1] bench_bus bench_world =
     Inr ([Nothing, Value (IntV 0), Nothing, Value (IntV 0)],
          [Digital \<lparr>in_ref = 0, data = 1\<rparr>, Digital \<lparr>in_ref = 1, data = 0\<rparr>,
           Digital \<lparr>in_ref = 2, data = 1\<rparr>],
          bench_world\<lparr>trace := [DigitalIn 2, DigitalIn 0, DigitalIn 0, DigitalIn 1, DigitalIn 2]\<rparr>)
   \<and> equal_samples [DigitalIn 2, DigitalIn 0, DigitalIn 0, DigitalIn 1, DigitalIn 2]
        bench_world 0 bench_world_later 1
   \<and> (\<exists>w2'. run [BusReadList [2, 0] True, BusIndex 2, BusReadAll False, BusGet 1]
               bench_bus bench_world_later =
         Inr ([Nothing, Value (IntV 0), Nothing, Value (IntV 0)],
              [Digital \<lparr>in_ref = 0, data = 1\<rparr>, Digital \<lparr>in_ref = 1, data = 0\<rparr>,
               Digital \<lparr>in_ref = 2, data = 1\<rparr>],
              w2'))"
proof -
  have r: "run [BusReadList [2, 0] True, BusIndex 2, BusReadAll False, BusGet 1]
      bench_bus bench_world =
     Inr ([Nothing, Value (IntV 0), Nothing, Value (IntV 0)],
          [Digital \<lparr>in_ref = 0, data = 1\<rparr>, Digital \<lparr>in_ref = 1, data = 0\<rparr>,
           Digital \<lparr>in_ref = 2, data = 1\<rparr>],
          bench_world\<lparr>trace := [DigitalIn 2, DigitalIn 0, DigitalIn 0, DigitalIn 1, DigitalIn 2]\<rparr>)"
    by (simp add: bench_bus_def bench_world_def InputRead_ctor_def Bus_index_def Bus_get_def
        Bus_read_all_def Digital_read_def DigitalIn_read_def read_cached_def)
  have e: "equal_samples [DigitalIn 2, DigitalIn 0, DigitalIn 0, DigitalIn 1, DigitalIn 2]
      bench_world 0 bench_world_later 1"
    by (simp add: bench_world_def bench_world_later_def)
  have "equal_samples
      (drop (length (trace bench_world))
         (trace (bench_world\<lparr>trace := [DigitalIn 2, DigitalIn 0, DigitalIn 0, DigitalIn 1, DigitalIn 2]\<rparr>)))
      bench_world (length (trace bench_world))
      bench_world_later (length (trace bench_world_later))"
    using e by (simp add: bench_world_def bench_world_later_def)
  from run_deterministic [OF r this] r e show ?thesis
    by blast
qed

text \<open>
  C10, as the spec has it, fails: two runs construct a two-wide binary bus on the same
  two lines, over storage that held 0 in the first run and 5 in the second, and execute
  \<^verbatim>\<open>read({0}, false)\<close> and then \<^verbatim>\<open>bus[1]\<close> in the same world. The lines return the same raw
  samples, and the indexed read returns 0 in the first run and 5 in the second.
\<close>

theorem run_depends_on_storage:
  "run [BusReadList [0] False, BusIndex 1]
     [Digital (InputRead_ctor 0 0), Digital (InputRead_ctor 1 0)] bench_world =
     Inr ([Nothing, Value (IntV 0)],
          [Digital \<lparr>in_ref = 0, data = 1\<rparr>, Digital \<lparr>in_ref = 1, data = 0\<rparr>],
          bench_world\<lparr>trace := [DigitalIn 0]\<rparr>)
   \<and> run [BusReadList [0] False, BusIndex 1]
     [Digital (InputRead_ctor 0 0), Digital (InputRead_ctor 1 5)] bench_world =
     Inr ([Nothing, Value (IntV 5)],
          [Digital \<lparr>in_ref = 0, data = 1\<rparr>, Digital \<lparr>in_ref = 1, data = 5\<rparr>],
          bench_world\<lparr>trace := [DigitalIn 0]\<rparr>)"
  by (simp add: bench_world_def InputRead_ctor_def Bus_index_def Digital_read_def
      DigitalIn_read_def read_cached_def)

end
